theory Spec2Isabelle
  imports
    Complex_Main
    "HOL-Library.AList"
    "HOL-Library.Char_ord"
    "HOL-Library.List_Lexorder"
begin

section \<open>Chemical reaction balancer: the embedding\<close>

text \<open>
  The program is \<^verbatim>\<open>chemical_reaction_balancer.py\<close>.  Python strings are modelled as
  \<^typ>\<open>string\<close>, one \<^typ>\<open>char\<close> per code point, so the model covers the strings whose
  code points are below 256.  On these the regular-expression class \<^verbatim>\<open>\d\<close> is exactly
  \<^verbatim>\<open>0\<close>..\<^verbatim>\<open>9\<close> and the whitespace removed by \<^verbatim>\<open>str.strip()\<close> is the set given by
  \<open>is_space\<close> below.  Python integers are \<^typ>\<open>int\<close>, the exact rationals of the
  linear-algebra step are \<^typ>\<open>rat\<close>.  An exception is a value \<open>Inl e\<close> of the result.
\<close>

subsection \<open>Exceptions\<close>

datatype py_error = ValueError | TypeError | ZeroDivisionError | IndexError

fun and_then :: "'e + 'a \<Rightarrow> ('a \<Rightarrow> 'e + 'b) \<Rightarrow> 'e + 'b" where
  "and_then (Inl e) f = Inl e"
| "and_then (Inr x) f = f x"

text \<open>A list comprehension or \<^verbatim>\<open>for\<close> loop whose body may raise: the first exception ends it.\<close>

fun traverse :: "('a \<Rightarrow> 'e + 'b) \<Rightarrow> 'a list \<Rightarrow> 'e + 'b list" where
  "traverse f [] = Inr []"
| "traverse f (x # xs) =
     and_then (f x) (\<lambda>y. and_then (traverse f xs) (\<lambda>ys. Inr (y # ys)))"

subsection \<open>Characters\<close>

definition code_point :: "char \<Rightarrow> nat" where
  "code_point c = of_char c"

definition is_upper :: "char \<Rightarrow> bool" where
  "is_upper c = (65 \<le> code_point c \<and> code_point c \<le> 90)"

definition is_lower :: "char \<Rightarrow> bool" where
  "is_lower c = (97 \<le> code_point c \<and> code_point c \<le> 122)"

definition is_digit :: "char \<Rightarrow> bool" where
  "is_digit c = (48 \<le> code_point c \<and> code_point c \<le> 57)"

text \<open>The characters \<^verbatim>\<open>str.strip()\<close> removes: tab to carriage return, the four separators
  \<^verbatim>\<open>\x1c\<close>..\<^verbatim>\<open>\x1f\<close>, the space, \<^verbatim>\<open>\x85\<close> and \<^verbatim>\<open>\xa0\<close>.\<close>

definition is_space :: "char \<Rightarrow> bool" where
  "is_space c = (let n = code_point c in
     (9 \<le> n \<and> n \<le> 13) \<or> (28 \<le> n \<and> n \<le> 32) \<or> n = 133 \<or> n = 160)"

subsection \<open>\<^verbatim>\<open>parse_compound\<close>\<close>

text \<open>
  \<^verbatim>\<open>re.findall(r'([A-Z][a-z]*)(\d*)', compound)\<close>: the scan goes left to right; at an
  upper-case letter a match starts, takes the longest run of lower-case letters and then the
  longest run of digits (both quantifiers are greedy and nothing follows them, so there is no
  backtracking), and the scan goes on after the match; any other character is passed over.
  The result lists the two groups of every match.
\<close>

function findall :: "string \<Rightarrow> (string \<times> string) list" where
  "findall [] = []"
| "findall (c # cs) =
     (if is_upper c then
        (let rest = dropWhile is_lower cs in
           (c # takeWhile is_lower cs, takeWhile is_digit rest)
             # findall (dropWhile is_digit rest))
      else findall cs)"
  by pat_completeness auto
termination
proof (relation "measure length")
  fix c :: char and cs rest :: string
  assume "rest = dropWhile is_lower cs"
  have "length (dropWhile is_digit (dropWhile is_lower cs)) \<le> length cs"
    by (meson length_dropWhile_le order_trans)
  then show "(dropWhile is_digit rest, c # cs) \<in> measure length"
    using \<open>rest = dropWhile is_lower cs\<close> by simp
qed simp_all

text \<open>
  \<^verbatim>\<open>int(count)\<close> on a string: the value of a non-empty string of decimal digits.  Python
  refuses to convert a string of more than 4300 digits (the default of
  \<^verbatim>\<open>sys.get_int_max_str_digits()\<close>, leading zeros counted) and raises \<^verbatim>\<open>ValueError\<close>.  On a
  string that is not made of digits the model raises \<^verbatim>\<open>ValueError\<close> too; Python accepts a few
  of these (a sign, surrounding whitespace, underscores), but the program never passes one.
\<close>

definition max_str_digits :: nat where
  "max_str_digits = 4300"

definition digit_value :: "char \<Rightarrow> int" where
  "digit_value c = int (code_point c) - 48"

definition decimal :: "string \<Rightarrow> int" where
  "decimal s = foldl (\<lambda>n c. 10 * n + digit_value c) 0 s"

definition py_int :: "string \<Rightarrow> py_error + int" where
  "py_int s = (if s \<noteq> [] \<and> list_all is_digit s \<and> length s \<le> max_str_digits
               then Inr (decimal s) else Inl ValueError)"

text \<open>A Python \<^verbatim>\<open>dict\<close> keeps its keys in insertion order and a store to a key that is
  present replaces the value in place: an association list under \<^const>\<open>AList.update\<close>.\<close>

type_synonym dict = "(string \<times> int) list"

definition dict_get :: "dict \<Rightarrow> string \<Rightarrow> int \<Rightarrow> int" where
  "dict_get d k dflt = (case map_of d k of None \<Rightarrow> dflt | Some v \<Rightarrow> v)"

definition dict_keys :: "dict \<Rightarrow> string list" where
  "dict_keys d = map fst d"

text \<open>The dictionary comprehension
  \<^verbatim>\<open>{element: int(count) if count else 1 for element, count in elements}\<close>:
  the pairs are visited in order, each value is computed and stored under its key.\<close>

fun dict_comprehension :: "(string \<times> string) list \<Rightarrow> dict \<Rightarrow> py_error + dict" where
  "dict_comprehension [] d = Inr d"
| "dict_comprehension ((element, count) # elements) d =
     and_then (if count \<noteq> [] then py_int count else Inr 1)
       (\<lambda>v. dict_comprehension elements (AList.update element v d))"

definition parse_compound :: "string \<Rightarrow> py_error + dict" where
  "parse_compound compound = dict_comprehension (findall compound) []"

subsection \<open>\<^verbatim>\<open>parse_reaction\<close>\<close>

text \<open>
  \<^verbatim>\<open>s.split(sep)\<close> for a non-empty separator (the program uses \<^verbatim>\<open>"->"\<close> and \<^verbatim>\<open>"+"\<close>):
  the occurrences of the separator are taken from the left, without overlap, and the pieces
  between them are returned, so the result always has at least one piece.  \<open>cur\<close> holds the
  current piece, reversed.
\<close>

function split_scan :: "string \<Rightarrow> string \<Rightarrow> string \<Rightarrow> string list" where
  "split_scan sep cur [] = [rev cur]"
| "split_scan sep cur (c # cs) =
     (if sep \<noteq> [] \<and> take (length sep) (c # cs) = sep
      then rev cur # split_scan sep [] (drop (length sep) (c # cs))
      else split_scan sep (c # cur) cs)"
  by pat_completeness auto
termination
  by (relation "measure (\<lambda>(sep, cur, s). length s)") auto

definition py_split :: "string \<Rightarrow> string \<Rightarrow> string list" where
  "py_split s sep = split_scan sep [] s"

definition strip :: "string \<Rightarrow> string" where
  "strip s = rev (dropWhile is_space (rev (dropWhile is_space s)))"

text \<open>The unpacking \<^verbatim>\<open>left, right = reaction.split("->")\<close> raises \<^verbatim>\<open>ValueError\<close> unless
  there are exactly two pieces; the program catches it and returns \<^verbatim>\<open>(None, None)\<close>,
  which is \<open>None\<close> here.\<close>

definition parse_reaction :: "string \<Rightarrow> (string list \<times> string list) option" where
  "parse_reaction reaction =
     (case py_split reaction ''->'' of
        [left, right] \<Rightarrow>
          Some (map strip (py_split left ''+''), map strip (py_split right ''+''))
      | _ \<Rightarrow> None)"

subsection \<open>\<^verbatim>\<open>get_elements\<close> and \<^verbatim>\<open>build_matrix\<close>\<close>

text \<open>The set of all keys, then \<^verbatim>\<open>sorted\<close>: the distinct symbols in the order of their code
  points.\<close>

definition get_elements :: "string list \<Rightarrow> string list \<Rightarrow> py_error + string list" where
  "get_elements reactants products =
     and_then (traverse parse_compound (reactants @ products))
       (\<lambda>ds. Inr (sort (remdups (concat (map dict_keys ds)))))"

definition build_row :: "string list \<Rightarrow> string list \<Rightarrow> string \<Rightarrow> py_error + int list" where
  "build_row reactants products element =
     and_then (traverse (\<lambda>compound. and_then (parse_compound compound)
                 (\<lambda>d. Inr (dict_get d element 0))) reactants)
       (\<lambda>left. and_then (traverse (\<lambda>compound. and_then (parse_compound compound)
                   (\<lambda>d. Inr (- dict_get d element 0))) products)
          (\<lambda>right. Inr (left @ right)))"

definition build_matrix ::
    "string list \<Rightarrow> string list \<Rightarrow> string list \<Rightarrow> py_error + int list list" where
  "build_matrix reactants products elements = traverse (build_row reactants products) elements"

subsection \<open>\<^verbatim>\<open>simplify_coefficients\<close>\<close>

text \<open>The local \<^verbatim>\<open>lcm\<close>: \<^verbatim>\<open>abs(a * b) // gcd(a, b)\<close>, where \<^verbatim>\<open>math.gcd\<close> is never negative and
  \<^verbatim>\<open>//\<close> raises on a zero divisor.\<close>

definition floordiv :: "int \<Rightarrow> int \<Rightarrow> py_error + int" where
  "floordiv a b = (if b = 0 then Inl ZeroDivisionError else Inr (a div b))"

definition lcm_py :: "int \<Rightarrow> int \<Rightarrow> py_error + int" where
  "lcm_py a b = floordiv \<bar>a * b\<bar> (gcd a b)"

text \<open>\<^verbatim>\<open>functools.reduce\<close> with and without an initial value; without one an empty sequence
  raises \<^verbatim>\<open>TypeError\<close> and a sequence of one element is returned as it is.\<close>

fun reduce_from :: "('a \<Rightarrow> 'a \<Rightarrow> py_error + 'a) \<Rightarrow> 'a list \<Rightarrow> 'a \<Rightarrow> py_error + 'a" where
  "reduce_from f [] acc = Inr acc"
| "reduce_from f (x # xs) acc = and_then (f acc x) (reduce_from f xs)"

fun reduce :: "('a \<Rightarrow> 'a \<Rightarrow> py_error + 'a) \<Rightarrow> 'a list \<Rightarrow> py_error + 'a" where
  "reduce f [] = Inl TypeError"
| "reduce f (x # xs) = reduce_from f xs x"

text \<open>\<^verbatim>\<open>int(q)\<close> of an exact rational rounds towards zero.\<close>

definition int_of_rat :: "rat \<Rightarrow> int" where
  "int_of_rat q = (if 0 \<le> q then \<lfloor>q\<rfloor> else \<lceil>q\<rceil>)"

definition simplify_coefficients :: "rat list \<Rightarrow> py_error + int list" where
  "simplify_coefficients coefficients =
     (let denominators = map (\<lambda>f. \<bar>snd (quotient_of f)\<bar>) coefficients in
      and_then (reduce_from lcm_py denominators 1) (\<lambda>scale_factor.
        let scaled_coeffs = map (\<lambda>c. int_of_rat (c * of_int scale_factor)) coefficients in
        and_then (reduce (\<lambda>a b. Inr (gcd a b)) scaled_coeffs) (\<lambda>gcd_coeffs.
          traverse (\<lambda>c. floordiv c gcd_coeffs) scaled_coeffs)))"

subsection \<open>The exact null space\<close>

text \<open>
  \<^verbatim>\<open>Matrix(matrix)\<close> turns the list of integer rows into a matrix of exact rationals.  A
  matrix is the list of its rows; the matrix made from the empty list has no rows and no
  columns.
\<close>

type_synonym matrix = "rat list list"

definition Matrix :: "int list list \<Rightarrow> matrix" where
  "Matrix rows = map (map of_int) rows"

text \<open>The number of columns; the matrix built from the empty list of rows has none.\<close>

definition cols :: "matrix \<Rightarrow> nat" where
  "cols M = (case M of [] \<Rightarrow> 0 | row # _ \<Rightarrow> length row)"

text \<open>
  Modelled from the spec: \<^verbatim>\<open>Matrix.nullspace\<close> belongs to the symbolic-mathematics library
  the program imports, which is not part of the sources.  The definitions from \<open>find_pivot\<close>
  to \<open>nullspace\<close> follow the specification of the exact null-space solver: the matrix is
  brought to reduced row-echelon form by Gaussian elimination over the rationals, column by
  column; every column without a pivot is a free variable and gives one basis vector, in
  column order, by setting that variable to 1, the other free variables to 0 and
  back-substituting the pivot variables.  The reduced row-echelon form of a matrix is unique,
  so the order in which an implementation picks its pivot rows does not change the basis.

  \<open>find_pivot\<close> is the first row, from row \<open>r\<close> on, with a non-zero entry in column \<open>c\<close>.
\<close>

definition find_pivot :: "matrix \<Rightarrow> nat \<Rightarrow> nat \<Rightarrow> nat option" where
  "find_pivot M r c = find (\<lambda>i. M ! i ! c \<noteq> 0) [r..<length M]"

text \<open>Modelled from the spec: the row operation that exchanges two rows.\<close>

definition swap_rows :: "nat \<Rightarrow> nat \<Rightarrow> matrix \<Rightarrow> matrix" where
  "swap_rows i j M = M[i := M ! j, j := M ! i]"

text \<open>Modelled from the spec: the row operation that divides row \<open>r\<close> by its entry in column
  \<open>c\<close>, making the pivot 1.\<close>

definition normalize_row :: "nat \<Rightarrow> nat \<Rightarrow> matrix \<Rightarrow> matrix" where
  "normalize_row r c M = M[r := map (\<lambda>x. x / (M ! r ! c)) (M ! r)]"

text \<open>Modelled from the spec: the row operations that subtract from every other row the
  multiple of row \<open>r\<close> that clears its entry in column \<open>c\<close>.\<close>

definition eliminate :: "nat \<Rightarrow> nat \<Rightarrow> matrix \<Rightarrow> matrix" where
  "eliminate r c M =
     map (\<lambda>i. if i = r then M ! r
               else map2 (\<lambda>x y. x - (M ! i ! c) * y) (M ! i) (M ! r)) [0..<length M]"

text \<open>Modelled from the spec: Gaussian elimination to reduced row-echelon form, over the
  columns from left to right.  \<open>pivots\<close> are the pivot columns found so far; the next pivot
  row is their number.  The result is the reduced matrix with its pivot columns.\<close>

fun rref_cols :: "nat list \<Rightarrow> matrix \<Rightarrow> nat list \<Rightarrow> matrix \<times> nat list" where
  "rref_cols [] M pivots = (M, pivots)"
| "rref_cols (c # cs) M pivots =
     (case find_pivot M (length pivots) c of
        None \<Rightarrow> rref_cols cs M pivots
      | Some i \<Rightarrow>
          rref_cols cs
            (eliminate (length pivots) c
               (normalize_row (length pivots) c (swap_rows (length pivots) i M)))
            (pivots @ [c]))"

text \<open>Modelled from the spec: the reduced row-echelon form of the whole matrix.\<close>

definition rref :: "matrix \<Rightarrow> matrix \<times> nat list" where
  "rref M = rref_cols [0..<cols M] M []"

text \<open>Modelled from the spec: the basis vector of a free column: 1 at the free variable, 0 at
  the other free variables, and at each pivot variable the value that back-substitution
  gives it, the negated entry of its pivot row in the free column.\<close>

definition basis_vector :: "matrix \<Rightarrow> nat list \<Rightarrow> nat \<Rightarrow> nat \<Rightarrow> rat list" where
  "basis_vector reduced pivots n free_var =
     fold (\<lambda>(piv_row, piv_col) vec.
             vec[piv_col := vec ! piv_col - reduced ! piv_row ! free_var])
       (enumerate 0 pivots) ((replicate n 0)[free_var := 1])"

text \<open>Modelled from the spec: the basis of the null space, one vector for each column without
  a pivot, in column order; it is empty when every column has a pivot.\<close>

definition nullspace :: "matrix \<Rightarrow> rat list list" where
  "nullspace M =
     (case rref M of (reduced, pivots) \<Rightarrow>
        map (basis_vector reduced pivots (cols M))
          (filter (\<lambda>i. i \<notin> set pivots) [0..<cols M]))"

subsection \<open>\<^verbatim>\<open>balance_reaction\<close>\<close>

text \<open>
  What \<^verbatim>\<open>balance_reaction\<close> has computed when it starts to build its answer: it has
  rejected the format, or found no null-space vector, or holds the reactants with their
  coefficients and the products with theirs.
\<close>

datatype outcome =
    Invalid_Format
  | Cannot_Balance
  | Balanced "string list" "int list" "string list" "int list"

definition balance_reaction_core :: "string \<Rightarrow> py_error + outcome" where
  "balance_reaction_core reaction =
     (case parse_reaction reaction of
        None \<Rightarrow> Inr Invalid_Format
      | Some (reactants, products) \<Rightarrow>
          and_then (get_elements reactants products) (\<lambda>elements.
          and_then (build_matrix reactants products elements) (\<lambda>matrix.
            case nullspace (Matrix matrix) of
              [] \<Rightarrow> Inr Cannot_Balance
            | coefficients # _ \<Rightarrow>
                and_then (simplify_coefficients coefficients) (\<lambda>coefficients.
                  Inr (Balanced reactants (take (length reactants) coefficients)
                         products (drop (length reactants) coefficients))))))"

text \<open>\<^verbatim>\<open>str\<close> of an integer, list indexing, \<^verbatim>\<open>sep.join\<close>.\<close>

function str_nat :: "nat \<Rightarrow> string" where
  "str_nat n = (if n < 10 then [''0123456789'' ! n]
                else str_nat (n div 10) @ [''0123456789'' ! (n mod 10)])"
  by pat_completeness auto
termination
  by (relation "measure id") auto

definition str_int :: "int \<Rightarrow> string" where
  "str_int k = (if k < 0 then CHR ''-'' # str_nat (nat (- k)) else str_nat (nat k))"

definition py_index :: "'a list \<Rightarrow> nat \<Rightarrow> py_error + 'a" where
  "py_index xs i = (if i < length xs then Inr (xs ! i) else Inl IndexError)"

fun join :: "string \<Rightarrow> string list \<Rightarrow> string" where
  "join sep [] = []"
| "join sep [x] = x"
| "join sep (x # y # ys) = x @ sep @ join sep (y # ys)"

definition render_terms :: "int list \<Rightarrow> string list \<Rightarrow> py_error + string" where
  "render_terms coeffs compounds =
     and_then (traverse (\<lambda>i. and_then (py_index coeffs i) (\<lambda>k.
                 and_then (py_index compounds i) (\<lambda>compound.
                   Inr (str_int k @ '' '' @ compound)))) [0..<length compounds])
       (\<lambda>terms. Inr (join '' + '' terms))"

definition balance_reaction :: "string \<Rightarrow> py_error + string" where
  "balance_reaction reaction =
     and_then (balance_reaction_core reaction) (\<lambda>res.
       case res of
         Invalid_Format \<Rightarrow>
           Inr ''Invalid reaction format. Use '->' to separate reactants and products.''
       | Cannot_Balance \<Rightarrow> Inr ''This reaction cannot be balanced.''
       | Balanced reactants reactant_coeffs products product_coeffs \<Rightarrow>
           and_then (render_terms reactant_coeffs reactants) (\<lambda>balanced_reactants.
           and_then (render_terms product_coeffs products) (\<lambda>balanced_products.
             Inr (balanced_reactants @ '' -> '' @ balanced_products))))"

subsection \<open>Notions used in the statements\<close>

text \<open>The count one match contributes: the value of its digits, or 1 when it has none.\<close>

definition count_value :: "string \<Rightarrow> int" where
  "count_value count = (if count \<noteq> [] then decimal count else 1)"

text \<open>The number of atoms of an element in a flat formula, in the words of the specification
  of the formula parser: the counts of all the matches of the symbol, summed.\<close>

definition element_count :: "string \<Rightarrow> string \<Rightarrow> int" where
  "element_count element compound =
     sum_list (map (count_value \<circ> snd) (filter (\<lambda>(e, d). e = element) (findall compound)))"

text \<open>The number of atoms of an element that the program finds in a compound, as
  \<^verbatim>\<open>build_matrix\<close> reads it: \<^verbatim>\<open>parse_compound(compound).get(element, 0)\<close>.\<close>

definition atom_count :: "string \<Rightarrow> string \<Rightarrow> int" where
  "atom_count element compound =
     (case parse_compound compound of Inr d \<Rightarrow> dict_get d element 0 | Inl _ \<Rightarrow> 0)"

text \<open>The product of a matrix row and a vector; a vector \<open>v\<close> lies in the null space of \<open>M\<close>
  when \<open>dot row v = 0\<close> for every row of \<open>M\<close>.\<close>

definition dot :: "rat list \<Rightarrow> rat list \<Rightarrow> rat" where
  "dot xs ys = sum_list (map2 (*) xs ys)"

text \<open>Every row has \<open>n\<close> entries.\<close>

definition wf_matrix :: "nat \<Rightarrow> matrix \<Rightarrow> bool" where
  "wf_matrix n M = (\<forall>row\<in>set M. length row = n)"

text \<open>One elimination step of \<open>rref_cols\<close>, and the invariant of its loop when the columns
  before \<open>c\<close> are done: each pivot column is a unit vector with its 1 in the row of that pivot,
  and below the pivot rows the columns before \<open>c\<close> are zero.\<close>

definition pivot_step :: "nat \<Rightarrow> nat \<Rightarrow> nat \<Rightarrow> matrix \<Rightarrow> matrix" where
  "pivot_step r c i M = eliminate r c (normalize_row r c (swap_rows r i M))"

definition rref_inv :: "nat \<Rightarrow> matrix \<Rightarrow> nat list \<Rightarrow> nat \<Rightarrow> bool" where
  "rref_inv n M P c =
     (wf_matrix n M \<and> length P \<le> length M \<and> (\<forall>p\<in>set P. p < c) \<and>
      (\<forall>k<length P. \<forall>i<length M. M ! i ! (P ! k) = (if i = k then 1 else 0)) \<and>
      (\<forall>j<c. \<forall>i<length M. length P \<le> i \<longrightarrow> M ! i ! j = 0))"

section \<open>Properties of the formula parser\<close>

lemmas char_defs = is_upper_def is_lower_def is_digit_def is_space_def code_point_def

lemma findall_digits: "(e, d) \<in> set (findall s) \<Longrightarrow> list_all is_digit d"
proof (induction s rule: findall.induct)
  case 1
  then show ?case by simp
next
  case (2 c cs)
  show ?case
  proof (cases "is_upper c")
    case True
    with 2 show ?thesis
      by (auto simp: Let_def list_all_iff dest: set_takeWhileD)
  next
    case False
    with 2 show ?thesis by simp
  qed
qed

lemma findall_no_upper: "\<forall>c\<in>set s. \<not> is_upper c \<Longrightarrow> findall s = []"
  by (induction s) auto

lemma findall_skip: "\<forall>c\<in>set junk. \<not> is_upper c \<Longrightarrow> findall (junk @ s) = findall s"
  by (induction junk) auto

lemma dict_comprehension_Inr:
  "dict_comprehension toks d0 = Inr d \<Longrightarrow>
   d = fold (\<lambda>(e, c). AList.update e (count_value c)) toks d0
   \<and> (\<forall>(e, c)\<in>set toks. length c \<le> max_str_digits)"
proof (induction toks arbitrary: d0)
  case Nil
  then show ?case by simp
next
  case (Cons t toks)
  obtain e c where t: "t = (e, c)" by (cases t)
  show ?case
  proof (cases "c = []")
    case True
    with Cons.prems t have "dict_comprehension toks (AList.update e 1 d0) = Inr d" by simp
    from Cons.IH[OF this] True show ?thesis by (simp add: t count_value_def)
  next
    case False
    with Cons.prems t have ok: "list_all is_digit c \<and> length c \<le> max_str_digits"
      by (auto simp: py_int_def split: if_splits)
    with Cons.prems t False
    have "dict_comprehension toks (AList.update e (decimal c) d0) = Inr d"
      by (simp add: py_int_def)
    from Cons.IH[OF this] False ok show ?thesis by (simp add: t count_value_def)
  qed
qed

lemma dict_comprehension_total:
  "\<forall>(e, c)\<in>set toks. list_all is_digit c \<and> length c \<le> max_str_digits \<Longrightarrow>
   dict_comprehension toks d0 = Inr (fold (\<lambda>(e, c). AList.update e (count_value c)) toks d0)"
  by (induction toks arbitrary: d0) (auto simp: py_int_def count_value_def)

lemma parse_compound_Inr:
  "parse_compound s = Inr d \<Longrightarrow>
   d = fold (\<lambda>(e, c). AList.update e (count_value c)) (findall s) []"
  unfolding parse_compound_def by (drule dict_comprehension_Inr) simp

lemma parse_compound_total:
  "\<forall>(e, c)\<in>set (findall s). length c \<le> max_str_digits \<Longrightarrow>
   parse_compound s = Inr (fold (\<lambda>(e, c). AList.update e (count_value c)) (findall s) [])"
  unfolding parse_compound_def
  by (rule dict_comprehension_total) (auto dest: findall_digits)

lemma parse_compound_Inr_iff:
  "(\<exists>d. parse_compound s = Inr d) \<longleftrightarrow> (\<forall>(e, c)\<in>set (findall s). length c \<le> max_str_digits)"
proof
  assume "\<exists>d. parse_compound s = Inr d"
  then show "\<forall>(e, c)\<in>set (findall s). length c \<le> max_str_digits"
    unfolding parse_compound_def by (auto dest: dict_comprehension_Inr)
next
  assume "\<forall>(e, c)\<in>set (findall s). length c \<le> max_str_digits"
  then show "\<exists>d. parse_compound s = Inr d" by (simp add: parse_compound_total)
qed









text \<open>
  Claim C2.  A symbol that is matched more than once in a formula should map to the sum of
  its matched counts.  The program stores each match under its symbol, so a later match
  replaces the earlier one: in \<^verbatim>\<open>CH3COOH\<close> the symbol \<^verbatim>\<open>H\<close> is matched with the counts 3 and 1,
  which sum to 4, and the dictionary holds 1 (and 1 for \<^verbatim>\<open>C\<close>, matched twice).
\<close>

theorem parse_compound_overwrites_duplicates:
  "parse_compound ''CH3COOH'' = Inr [(''C'', 1), (''H'', 1), (''O'', 1)]
   \<and> sum_list (map (count_value \<circ> snd) (filter (\<lambda>(e, d). e = ''H'') (findall ''CH3COOH''))) = 4"
  by (simp add: parse_compound_def py_int_def max_str_digits_def decimal_def digit_value_def
      count_value_def char_defs)







lemma findall_symbol_digits:
  "is_upper c \<Longrightarrow> \<not> is_lower d \<Longrightarrow> is_digit d \<Longrightarrow>
   findall (c # replicate n d) = [([c], replicate n d)]"
  by (simp add: Let_def takeWhile_replicate dropWhile_replicate)

text \<open>
  Claim C10, as stated: \<^verbatim>\<open>parse_compound\<close> never raises, whatever the input.  For \<^verbatim>\<open>H\<close>
  followed by 4301 zeros the match hands a run of 4301 digits to \<^verbatim>\<open>int\<close>, which raises
  \<^verbatim>\<open>ValueError\<close>.
\<close>

theorem parse_compound_raises_counterexample:
  "parse_compound (CHR ''H'' # replicate 4301 (CHR ''0'')) = Inl ValueError"
proof -
  have "findall (CHR ''H'' # replicate 4301 (CHR ''0''))
          = [(''H'', replicate 4301 (CHR ''0''))]"
    by (rule findall_symbol_digits) (simp_all add: char_defs)
  then show ?thesis
    by (simp add: parse_compound_def py_int_def max_str_digits_def)
qed

text \<open>
  Claim C10, amended.  \<^verbatim>\<open>parse_compound\<close> returns a dictionary, and does not raise, exactly
  when no run of digits that follows an element symbol has more than 4300 digits; on a longer
  run \<^verbatim>\<open>int(count)\<close> raises \<^verbatim>\<open>ValueError\<close>.  Characters that do not start a match are passed
  over and never make it raise, so an input with no upper-case letter gives the empty
  dictionary.
\<close>

theorem parse_compound_raises_only_on_long_digits:
  "((\<exists>d. parse_compound s = Inr d)
      \<longleftrightarrow> (\<forall>(e, c)\<in>set (findall s). length c \<le> max_str_digits))
   \<and> ((\<forall>c\<in>set junk. \<not> is_upper c) \<longrightarrow> parse_compound (junk @ s) = parse_compound s)
   \<and> ((\<forall>c\<in>set s. \<not> is_upper c) \<longrightarrow> parse_compound s = Inr [])"
  using parse_compound_Inr_iff[of s]
  by (simp add: parse_compound_def findall_skip findall_no_upper)

theorem parse_compound_raises_only_on_long_digits_witness:
  "parse_compound ''H2O'' = Inr [(''H'', 2), (''O'', 1)]
   \<and> parse_compound (''(2h'' @ ''H2O'') = parse_compound ''H2O''
   \<and> parse_compound ''h2o'' = Inr []"
proof -
  have f: "findall ''H2O'' = [(''H'', ''2''), (''O'', [])]"
    by (simp add: char_defs)
  have a: "\<forall>(e, c)\<in>set (findall ''H2O''). length c \<le> max_str_digits"
    by (simp add: f max_str_digits_def)
  have b: "\<forall>c\<in>set ''(2h''. \<not> is_upper c" by (simp add: char_defs)
  have c: "\<forall>c\<in>set ''h2o''. \<not> is_upper c" by (simp add: char_defs)
  have p: "parse_compound ''H2O'' = Inr [(''H'', 2), (''O'', 1)]"
    by (simp add: parse_compound_def py_int_def max_str_digits_def decimal_def digit_value_def
        char_defs)
  from parse_compound_raises_only_on_long_digits [of "''H2O''" "''(2h''"]
    parse_compound_raises_only_on_long_digits [of "''h2o''" "[]"] a b c p
  show ?thesis by simp
qed

section \<open>Properties of the reaction parser\<close>

lemma split_scan_nonempty: "split_scan sep cur s \<noteq> []"
  by (induction sep cur s rule: split_scan.induct) auto

text \<open>
  Claim C6, as stated: when a side of the arrow has no non-empty compound token the reaction
  parser fails.  It does not: for \<^verbatim>\<open>" -> H2O"\<close> it returns the reactant list that holds the
  empty string.
\<close>

theorem parse_reaction_empty_side_counterexample:
  "parse_reaction '' -> H2O'' = Some ([[]], [''H2O''])"
  by (simp add: parse_reaction_def py_split_def strip_def char_defs)

text \<open>
  Claim C6, amended.  When splitting the reaction string at the arrow gives exactly two
  sides, the reaction parser does not fail, whatever the tokens are: it returns, for each
  side, the list of the trimmed pieces between the \<^verbatim>\<open>+\<close> signs, the empty pieces included, and
  each list has at least one entry.
\<close>

theorem parse_reaction_keeps_empty_tokens:
  assumes "py_split reaction ''->'' = [left, right]"
  shows "parse_reaction reaction =
           Some (map strip (py_split left ''+''), map strip (py_split right ''+''))
         \<and> map strip (py_split left ''+'') \<noteq> [] \<and> map strip (py_split right ''+'') \<noteq> []"
  using assms by (simp add: parse_reaction_def py_split_def split_scan_nonempty)

theorem parse_reaction_keeps_empty_tokens_witness:
  "py_split '' -> H2O'' ''->'' = ['' '', '' H2O'']
   \<and> parse_reaction '' -> H2O'' = Some ([[]], [''H2O''])"
proof -
  have sp: "py_split '' -> H2O'' ''->'' = ['' '', '' H2O'']"
    by (simp add: py_split_def)
  from parse_reaction_keeps_empty_tokens [OF sp] sp show ?thesis
    by (simp add: py_split_def strip_def char_defs)
qed

section \<open>Properties of the coefficient normaliser\<close>

lemma lcm_py_pos: "0 < a \<Longrightarrow> 0 < b \<Longrightarrow> lcm_py a b = Inr (lcm a b)"
  by (simp add: lcm_py_def floordiv_def lcm_altdef_int abs_mult)

lemma reduce_from_lcm:
  "0 < acc \<Longrightarrow> \<forall>d\<in>set ds. 0 < d \<Longrightarrow>
   \<exists>L. reduce_from lcm_py ds acc = Inr L \<and> 0 < L \<and> acc dvd L \<and> (\<forall>d\<in>set ds. d dvd L)"
proof (induction ds arbitrary: acc)
  case Nil
  then show ?case by simp
next
  case (Cons d ds)
  have pos: "0 < lcm acc d" using Cons.prems by (simp add: lcm_pos_int)
  from Cons.IH[OF pos] Cons.prems(2) obtain L where
    L: "reduce_from lcm_py ds (lcm acc d) = Inr L" "0 < L" "lcm acc d dvd L" "\<forall>d\<in>set ds. d dvd L"
    by auto
  have "acc dvd L" "d dvd L" using L(3) by (meson dvd_lcm1 dvd_lcm2 dvd_trans)+
  with L Cons.prems show ?case by (simp add: lcm_py_pos)
qed

lemma reduce_from_gcd:
  "reduce_from (\<lambda>a b. Inr (gcd a b)) xs (a::int) =
     (Inr (if xs = [] then a else Gcd (set (a # xs))) :: py_error + int)"
proof (induction xs arbitrary: a)
  case Nil
  then show ?case by simp
next
  case (Cons x xs)
  show ?case by (simp add: Cons.IH gcd.assoc)
qed

lemma int_of_rat_of_int: "int_of_rat (of_int z) = z"
  by (simp add: int_of_rat_def)

lemma scaled_exact:
  assumes "\<bar>snd (quotient_of q)\<bar> dvd L"
  shows "of_int (int_of_rat (q * of_int L)) = q * of_int L"
proof -
  obtain a b where ab: "quotient_of q = (a, b)" by (cases "quotient_of q")
  then have q: "q = of_int a / of_int b" and b: "0 < b"
    by (simp_all add: quotient_of_div quotient_of_denom_pos)
  from assms ab b have "b dvd L" by simp
  then obtain m where m: "L = b * m" by (auto simp: dvd_def)
  have "q * of_int L = of_int (a * m)" using b by (simp add: q m)
  then show ?thesis by (simp only: int_of_rat_of_int)
qed


lemma simplify_coefficients_eq:
  assumes nz: "\<exists>c\<in>set v. c \<noteq> 0"
  shows "\<exists>L g. 0 < L \<and> g \<noteq> 0 \<and> (2 \<le> length v \<longrightarrow> 0 < g)
           \<and> \<bar>g\<bar> = Gcd (set (map (\<lambda>c. int_of_rat (c * of_int L)) v))
           \<and> (\<forall>c\<in>set v. of_int (int_of_rat (c * of_int L)) = c * of_int L)
           \<and> (\<forall>c\<in>set v. g dvd int_of_rat (c * of_int L))
           \<and> simplify_coefficients v = Inr (map (\<lambda>c. int_of_rat (c * of_int L) div g) v)"
proof -
  let ?ds = "map (\<lambda>f. \<bar>snd (quotient_of f)\<bar>) v"
  have "\<forall>d\<in>set ?ds. 0 < d"
    using quotient_of_denom_pos' by (auto simp: abs_if)
  from reduce_from_lcm[OF _ this, of 1] obtain L where
    L: "reduce_from lcm_py ?ds 1 = Inr L" "0 < L" "\<forall>d\<in>set ?ds. d dvd L"
    by auto
  let ?sc = "map (\<lambda>c. int_of_rat (c * of_int L)) v"
  have exact: "\<forall>c\<in>set v. of_int (int_of_rat (c * of_int L)) = c * of_int L"
    using L(3) by (auto intro: scaled_exact)
  from nz obtain c where c: "c \<in> set v" "c \<noteq> 0" by auto
  have "of_int (int_of_rat (c * of_int L)) \<noteq> (0::rat)"
    using exact c L(2) by simp
  then have cnz: "int_of_rat (c * of_int L) \<noteq> 0" by auto
  have "Gcd (set ?sc) dvd int_of_rat (c * of_int L)"
    using c(1) by (intro Gcd_dvd) simp
  with cnz have scnz: "Gcd (set ?sc) \<noteq> 0" by auto
  from c obtain x xs where sc: "?sc = x # xs" by (cases v) auto
  define g where "g = (if xs = [] then x else Gcd (set (x # xs)))"
  have red: "reduce (\<lambda>a b. Inr (gcd a b)) ?sc = Inr g"
    unfolding sc g_def by (simp add: reduce_from_gcd)
  have gabs: "\<bar>g\<bar> = Gcd (set ?sc)"
    unfolding sc g_def by simp
  with scnz have gnz: "g \<noteq> 0" by (metis abs_zero)
  have gpos: "0 < g" if "2 \<le> length v"
  proof -
    from that sc have "xs \<noteq> []" by (cases v; cases xs) auto
    then have "g = Gcd (set ?sc)" unfolding sc g_def by simp
    with scnz show ?thesis by (metis Gcd_int_greater_eq_0 order_less_le)
  qed
  have gdvd: "\<forall>c\<in>set v. g dvd int_of_rat (c * of_int L)"
  proof
    fix c assume "c \<in> set v"
    then have "Gcd (set ?sc) dvd int_of_rat (c * of_int L)" by (intro Gcd_dvd) simp
    with gabs show "g dvd int_of_rat (c * of_int L)" by (metis abs_dvd_iff)
  qed
  have trav: "traverse (\<lambda>c. floordiv c g) ys = Inr (map (\<lambda>c. c div g) ys)" for ys
    using gnz by (induction ys) (simp_all add: floordiv_def)
  have "simplify_coefficients v = Inr (map (\<lambda>c. int_of_rat (c * of_int L) div g) v)"
    unfolding simplify_coefficients_def Let_def L(1) by (simp add: red trav comp_def)
  with L(2) gnz gpos gabs exact gdvd show ?thesis by blast
qed


lemma simplify_coefficients_scale:
  assumes nz: "\<exists>c\<in>set v. c \<noteq> 0"
  shows "\<exists>ks L g. simplify_coefficients v = Inr ks \<and> length ks = length v \<and> 0 < L \<and> g \<noteq> 0
           \<and> (2 \<le> length v \<longrightarrow> 0 < g)
           \<and> (\<forall>i<length v. of_int (ks ! i) * of_int g = v ! i * of_int L)"
proof -
  from simplify_coefficients_eq[OF nz] obtain L g where
    h: "0 < L" "g \<noteq> 0" "2 \<le> length v \<longrightarrow> 0 < g"
       "\<forall>c\<in>set v. of_int (int_of_rat (c * of_int L)) = c * of_int L"
       "\<forall>c\<in>set v. g dvd int_of_rat (c * of_int L)"
       "simplify_coefficients v = Inr (map (\<lambda>c. int_of_rat (c * of_int L) div g) v)"
    by blast
  let ?ks = "map (\<lambda>c. int_of_rat (c * of_int L) div g) v"
  have "of_int (?ks ! i) * of_int g = v ! i * (of_int L :: rat)" if "i < length v" for i
  proof -
    from that have m: "v ! i \<in> set v" by simp
    with h(5) have "int_of_rat (v ! i * of_int L) div g * g = int_of_rat (v ! i * of_int L)"
      by simp
    then have "(of_int (int_of_rat (v ! i * of_int L) div g) :: rat) * of_int g
               = of_int (int_of_rat (v ! i * of_int L))"
      by (metis of_int_mult)
    with h(4) m that show ?thesis by simp
  qed
  with h show ?thesis by (intro exI[of _ ?ks] exI[of _ L] exI[of _ g]) simp
qed

text \<open>
  Claim C3, as stated: a zero or negative entry after scaling makes the normalisation fail,
  so every returned coefficient is positive.  The vector \<open>(-1, 1, 0)\<close> is normalised to
  itself, and it is the vector chosen for \<^verbatim>\<open>H2 + H2 -> O2\<close>, whose answer has the coefficients
  -1, 1 and 0.
\<close>

theorem simplify_coefficients_sign_counterexample:
  "simplify_coefficients [- 1, 1, 0] = Inr [- 1, 1, 0]
   \<and> balance_reaction_core ''H2 + H2 -> O2''
       = Inr (Balanced [''H2'', ''H2''] [- 1, 1] [''O2''] [0])"
  by code_simp

text \<open>
  Claim C3, amended.  The normalisation has no failure for zero or negative entries: for
  every rational vector with an entry that is not zero it returns one integer per entry; an
  integer is zero exactly when its entry is zero, and when the vector has at least two
  entries an integer is positive exactly when its entry is positive, so that zero and
  negative entries give zero and negative coefficients.
\<close>

theorem simplify_coefficients_keeps_signs:
  assumes nz: "\<exists>c\<in>set v. c \<noteq> 0"
  shows "\<exists>ks. simplify_coefficients v = Inr ks \<and> length ks = length v
           \<and> (\<forall>i<length v. (ks ! i = 0 \<longleftrightarrow> v ! i = 0)
                  \<and> (2 \<le> length v \<longrightarrow> (0 < ks ! i \<longleftrightarrow> 0 < v ! i)))"
proof -
  from simplify_coefficients_scale[OF nz] obtain ks L g where
    h: "simplify_coefficients v = Inr ks" "length ks = length v" "0 < L" "g \<noteq> 0"
       "2 \<le> length v \<longrightarrow> 0 < g"
       "\<forall>i<length v. of_int (ks ! i) * of_int g = v ! i * (of_int L :: rat)"
    by blast
  have "(ks ! i = 0 \<longleftrightarrow> v ! i = 0) \<and> (2 \<le> length v \<longrightarrow> (0 < ks ! i \<longleftrightarrow> 0 < v ! i))"
    if "i < length v" for i
  proof -
    from h(6) that have e: "of_int (ks ! i) * of_int g = v ! i * (of_int L :: rat)" by simp
    have L: "0 < (of_int L :: rat)" and g: "(of_int g :: rat) \<noteq> 0" using h(3,4) by simp_all
    have "(of_int (ks ! i) :: rat) = 0 \<longleftrightarrow> v ! i = 0"
      using e L g by (metis mult_eq_0_iff less_irrefl)
    then have zero: "ks ! i = 0 \<longleftrightarrow> v ! i = 0" by simp
    have "0 < ks ! i \<longleftrightarrow> 0 < v ! i" if "2 \<le> length v"
    proof -
      from that h(5) have gp: "0 < (of_int g :: rat)" by simp
      have "0 < (of_int (ks ! i) :: rat) \<longleftrightarrow> 0 < v ! i"
        using e gp L by (metis zero_less_mult_pos2 mult_pos_pos)
      then show ?thesis by simp
    qed
    with zero show ?thesis by blast
  qed
  with h(1,2) show ?thesis by blast
qed

theorem simplify_coefficients_keeps_signs_witness:
  "2 \<le> length [- 1, 1, 0 :: rat] \<and> simplify_coefficients [- 1, 1, 0] = Inr [- 1, 1, 0]"
proof -
  have a: "2 \<le> length [- 1, 1, 0 :: rat]" by simp
  have b: "\<exists>c\<in>set [- 1, 1, 0 :: rat]. c \<noteq> 0" by simp
  have c: "simplify_coefficients [- 1, 1, 0] = Inr [- 1, 1, 0]" by code_simp
  from simplify_coefficients_keeps_signs [OF b] a c show ?thesis by simp
qed

text \<open>
  Claim C4.  For every rational vector with at least one entry that is not zero,
  \<^verbatim>\<open>simplify_coefficients\<close> returns an integer vector of the same length whose entries have
  the greatest common divisor 1.
\<close>

theorem simplify_coefficients_gcd:
  assumes nz: "\<exists>c\<in>set v. c \<noteq> 0"
  shows "\<exists>ks. simplify_coefficients v = Inr ks \<and> length ks = length v \<and> Gcd (set ks) = 1"
proof -
  from simplify_coefficients_eq[OF nz] obtain L g where
    h: "g \<noteq> 0" "\<bar>g\<bar> = Gcd (set (map (\<lambda>c. int_of_rat (c * of_int L)) v))"
       "\<forall>c\<in>set v. g dvd int_of_rat (c * of_int L)"
       "simplify_coefficients v = Inr (map (\<lambda>c. int_of_rat (c * of_int L) div g) v)"
    by blast
  let ?sc = "map (\<lambda>c. int_of_rat (c * of_int L)) v"
  let ?ks = "map (\<lambda>c. int_of_rat (c * of_int L) div g) v"
  let ?G = "Gcd (set ?ks)"
  have "?G * g dvd s" if "s \<in> set ?sc" for s
  proof -
    from that obtain c where c: "c \<in> set v" "s = int_of_rat (c * of_int L)" by auto
    with h(3) have s: "s = (s div g) * g" by simp
    have "s div g \<in> set ?ks" using c by auto
    then have "?G dvd s div g" by (rule Gcd_dvd)
    then have "?G * g dvd (s div g) * g" by (rule mult_dvd_mono) simp
    with s show ?thesis by simp
  qed
  then have "?G * g dvd Gcd (set ?sc)" by (intro Gcd_greatest) simp
  with h(2) have "?G * g dvd g" by (metis dvd_abs_iff)
  with h(1) have "?G dvd 1" by simp
  moreover have "0 \<le> ?G" by simp
  ultimately have "?G = 1" by (simp add: zdvd1_eq)
  with h(4) show ?thesis by simp
qed

theorem simplify_coefficients_gcd_witness:
  "simplify_coefficients [1, Fract 1 2, 1] = Inr [2, 1, 2] \<and> Gcd (set [2, 1, 2 :: int]) = 1"
proof -
  have b: "\<exists>c\<in>set [1, Fract 1 2, 1 :: rat]. c \<noteq> 0" by simp
  have c: "simplify_coefficients [1, Fract 1 2, 1] = Inr [2, 1, 2]" by code_simp
  from simplify_coefficients_gcd [OF b] c show ?thesis by simp
qed

section \<open>Properties of the null-space solver\<close>

text \<open>
  The row operations of the elimination keep the null space, and the reduced matrix has the
  shape from which the basis vectors are read off; so every vector that \<open>nullspace\<close> returns
  has one entry per column, is annihilated by every row of the matrix, and has an entry 1.
\<close>

lemma dot_Nil [simp]: "dot [] v = 0" "dot xs [] = 0"
  by (simp_all add: dot_def)

lemma dot_Cons [simp]: "dot (x # xs) (y # ys) = x * y + dot xs ys"
  by (simp add: dot_def)

lemma dot_replicate_zero: "dot row (replicate n 0) = 0"
proof (induction row arbitrary: n)
  case Nil
  then show ?case by simp
next
  case (Cons x row)
  then show ?case by (cases n) simp_all
qed

lemma dot_update:
  "j < length v \<Longrightarrow> length row = length v \<Longrightarrow>
   dot row (v[j := x]) = dot row v + row ! j * (x - v ! j)"
proof (induction row arbitrary: v j)
  case Nil
  then show ?case by simp
next
  case (Cons a row)
  then obtain b w where v: "v = b # w" by (cases v) auto
  show ?case
  proof (cases j)
    case 0
    then show ?thesis by (simp add: v algebra_simps)
  next
    case (Suc j')
    with Cons v show ?thesis by simp
  qed
qed

lemma dot_scale: "dot (map (\<lambda>x. x / p) row) v = dot row v / p"
proof (induction row arbitrary: v)
  case Nil
  then show ?case by simp
next
  case (Cons a row)
  then show ?case by (cases v) (simp_all add: add_divide_distrib)
qed

lemma dot_sub:
  "length xs = length ys \<Longrightarrow>
   dot (map2 (\<lambda>x y. x - a * y) xs ys) v = dot xs v - a * dot ys v"
proof (induction xs ys arbitrary: v rule: list_induct2)
  case Nil
  then show ?case by simp
next
  case (Cons x xs y ys)
  then show ?case by (cases v) (simp_all add: algebra_simps)
qed

lemma wf_matrix_nth: "wf_matrix n M \<Longrightarrow> k < length M \<Longrightarrow> length (M ! k) = n"
  by (simp add: wf_matrix_def)

lemma length_pivot_step [simp]: "length (pivot_step r c i M) = length M"
  by (simp add: pivot_step_def eliminate_def normalize_row_def swap_rows_def)

lemma pivot_step_row:
  assumes "r < length M" "i < length M" "k < length M"
  shows "pivot_step r c i M ! k =
           (if k = r then map (\<lambda>x. x / (M ! i ! c)) (M ! i)
            else map2 (\<lambda>x y. x - ((if k = i then M ! r else M ! k) ! c) * y)
                   (if k = i then M ! r else M ! k) (map (\<lambda>x. x / (M ! i ! c)) (M ! i)))"
  using assms
  by (auto simp: pivot_step_def eliminate_def normalize_row_def swap_rows_def nth_list_update)


lemma pivot_step_wf:
  assumes "wf_matrix n M" "r < length M" "i < length M"
  shows "wf_matrix n (pivot_step r c i M)"
proof -
  have "length (pivot_step r c i M ! k) = n" if "k < length M" for k
    using that assms by (simp add: pivot_step_row wf_matrix_nth)
  then show ?thesis
    unfolding wf_matrix_def by (metis in_set_conv_nth length_pivot_step)
qed

lemma pivot_step_entry:
  assumes "wf_matrix n M" "r < length M" "i < length M" "k < length M" "j < n"
  shows "pivot_step r c i M ! k ! j =
           (if k = r then M ! i ! j / (M ! i ! c)
            else (if k = i then M ! r else M ! k) ! j
                 - (if k = i then M ! r else M ! k) ! c * (M ! i ! j / (M ! i ! c)))"
  using assms by (simp add: pivot_step_row wf_matrix_nth)

lemma pivot_step_kernel:
  assumes wf: "wf_matrix n M" and r: "r < length M" and i: "i < length M"
    and p: "M ! i ! c \<noteq> 0"
    and ker: "\<forall>k<length M. dot (pivot_step r c i M ! k) v = 0"
  shows "\<forall>k<length M. dot (M ! k) v = 0"
proof -
  let ?piv = "map (\<lambda>x. x / (M ! i ! c)) (M ! i)"
  from ker r have "dot (pivot_step r c i M ! r) v = 0" by simp
  then have "dot ?piv v = 0" using r i by (simp add: pivot_step_row)
  then have Mi: "dot (M ! i) v = 0" using p by (simp add: dot_scale)
  have other: "dot (if k = i then M ! r else M ! k) v = 0" if "k < length M" "k \<noteq> r" for k
  proof -
    let ?row = "if k = i then M ! r else M ! k"
    have len: "length ?row = length ?piv" using wf r i that by (simp add: wf_matrix_nth)
    from ker that have "dot (pivot_step r c i M ! k) v = 0" by simp
    then have "dot (map2 (\<lambda>x y. x - (?row ! c) * y) ?row ?piv) v = 0"
      using r i that by (simp add: pivot_step_row)
    then show ?thesis using \<open>dot ?piv v = 0\<close> by (simp only: dot_sub[OF len])
  qed
  show ?thesis
  proof (intro allI impI)
    fix k assume k: "k < length M"
    show "dot (M ! k) v = 0"
    proof (cases "k = i")
      case True
      with Mi show ?thesis by simp
    next
      case ki: False
      show ?thesis
      proof (cases "k = r")
        case True
        with other[OF i] ki Mi show ?thesis by (cases "i = r") simp_all
      next
        case False
        with other[OF k] ki show ?thesis by simp
      qed
    qed
  qed
qed

lemma find_pivot_Some:
  "find_pivot M r c = Some i \<Longrightarrow> r \<le> i \<and> i < length M \<and> M ! i ! c \<noteq> 0"
  by (auto simp: find_pivot_def find_Some_iff)

lemma find_pivot_None:
  "find_pivot M r c = None \<Longrightarrow> r \<le> i \<Longrightarrow> i < length M \<Longrightarrow> M ! i ! c = 0"
  by (auto simp: find_pivot_def find_None_iff)

lemma pivot_step_column_unchanged:
  assumes wf: "wf_matrix n M" and ri: "r \<le> i" and i: "i < length M" and j: "j < n"
    and zero: "\<forall>x<length M. r \<le> x \<longrightarrow> M ! x ! j = 0" and k: "k < length M"
  shows "pivot_step r c i M ! k ! j = M ! k ! j"
proof -
  from ri i have r: "r < length M" by simp
  from zero i ri r have z: "M ! i ! j = 0" "M ! r ! j = 0" by simp_all
  show ?thesis using z by (simp add: pivot_step_entry[OF wf r i k j])
qed

lemma pivot_step_column_unit:
  assumes wf: "wf_matrix n M" and ri: "r \<le> i" and i: "i < length M" and c: "c < n"
    and p: "M ! i ! c \<noteq> 0" and k: "k < length M"
  shows "pivot_step r c i M ! k ! c = (if k = r then 1 else 0)"
proof -
  from ri i have r: "r < length M" by simp
  show ?thesis using p by (simp add: pivot_step_entry[OF wf r i k c])
qed

lemma rref_inv_skip:
  assumes inv: "rref_inv n M P c" and none: "find_pivot M (length P) c = None"
  shows "rref_inv n M P (Suc c)"
  using inv find_pivot_None[OF none]
  by (auto simp: rref_inv_def less_Suc_eq)

lemma rref_inv_step:
  assumes inv: "rref_inv n M P c" and c: "c < n"
    and some: "find_pivot M (length P) c = Some i"
  shows "rref_inv n (pivot_step (length P) c i M) (P @ [c]) (Suc c)"
proof -
  let ?r = "length P"
  let ?M' = "pivot_step ?r c i M"
  from find_pivot_Some[OF some] have ri: "?r \<le> i" and i: "i < length M" and p: "M ! i ! c \<noteq> 0"
    by simp_all
  from inv have wf: "wf_matrix n M" and P: "\<forall>p\<in>set P. p < c"
    and unit: "\<forall>k<length P. \<forall>x<length M. M ! x ! (P ! k) = (if x = k then 1 else 0)"
    and zero: "\<forall>j<c. \<forall>x<length M. length P \<le> x \<longrightarrow> M ! x ! j = 0"
    by (simp_all add: rref_inv_def)
  from ri i have r: "?r < length M" by simp
  have wf': "wf_matrix n ?M'" by (rule pivot_step_wf[OF wf r i])
  have colc: "?M' ! x ! c = (if x = ?r then 1 else 0)" if "x < length M" for x
    by (rule pivot_step_column_unit[OF wf ri i c p that])
  have old: "?M' ! x ! (P ! k) = (if x = k then 1 else 0)" if "k < length P" "x < length M" for k x
  proof -
    from that P c have "P ! k < n" by (meson nth_mem order_less_trans)
    moreover have "\<forall>y<length M. ?r \<le> y \<longrightarrow> M ! y ! (P ! k) = 0"
      using unit that(1) by auto
    ultimately have "?M' ! x ! (P ! k) = M ! x ! (P ! k)"
      using pivot_step_column_unchanged[OF wf ri i _ _ that(2)] by blast
    with unit that show ?thesis by simp
  qed
  have units: "?M' ! x ! ((P @ [c]) ! k) = (if x = k then 1 else 0)"
    if "k < length (P @ [c])" "x < length M" for k x
  proof (cases "k < length P")
    case True
    with old[OF True that(2)] show ?thesis by (simp add: nth_append)
  next
    case False
    with that(1) have "k = ?r" by simp
    with colc[OF that(2)] show ?thesis by (simp add: nth_append)
  qed
  have zeros: "?M' ! x ! j = 0" if "j < Suc c" "x < length M" "length (P @ [c]) \<le> x" for j x
  proof (cases "j = c")
    case True
    with colc[OF that(2)] that(3) show ?thesis by simp
  next
    case False
    with that(1) have jc: "j < c" by simp
    with c have jn: "j < n" by simp
    have "\<forall>y<length M. ?r \<le> y \<longrightarrow> M ! y ! j = 0" using zero jc by simp
    then have "?M' ! x ! j = M ! x ! j"
      using pivot_step_column_unchanged[OF wf ri i jn _ that(2)] by blast
    with zero jc that show ?thesis by simp
  qed
  show ?thesis
    unfolding rref_inv_def
    using wf' r P units zeros by (auto simp: less_Suc_eq)
qed


lemma rref_cols_Cons:
  "rref_cols (c # cs) M P =
     (case find_pivot M (length P) c of
        None \<Rightarrow> rref_cols cs M P
      | Some i \<Rightarrow> rref_cols cs (pivot_step (length P) c i M) (P @ [c]))"
  by (simp add: pivot_step_def split: option.split)

lemma rref_cols_inv:
  "rref_inv n M P c \<Longrightarrow> c \<le> n \<Longrightarrow> rref_cols [c..<n] M P = (R, Q) \<Longrightarrow>
   rref_inv n R Q n \<and> length R = length M
   \<and> (\<forall>v. (\<forall>k<length R. dot (R ! k) v = 0) \<longrightarrow> (\<forall>k<length M. dot (M ! k) v = 0))"
proof (induction "n - c" arbitrary: c M P)
  case 0
  then show ?case by simp
next
  case (Suc d)
  then have c: "c < n" and d: "d = n - Suc c" by simp_all
  then have upt: "[c..<n] = c # [Suc c..<n]" by (simp add: upt_conv_Cons)
  show ?case
  proof (cases "find_pivot M (length P) c")
    case None
    from Suc.prems(3) have rec: "rref_cols [Suc c..<n] M P = (R, Q)"
      unfolding upt rref_cols_Cons None by simp
    from Suc.hyps(1)[OF d rref_inv_skip[OF Suc.prems(1) None] _ rec] c show ?thesis by simp
  next
    case (Some i)
    let ?M' = "pivot_step (length P) c i M"
    from Suc.prems(3) have rec: "rref_cols [Suc c..<n] ?M' (P @ [c]) = (R, Q)"
      unfolding upt rref_cols_Cons Some by simp
    from Suc.hyps(1)[OF d rref_inv_step[OF Suc.prems(1) c Some] _ rec] c
    have IH: "rref_inv n R Q n" "length R = length M"
      "\<forall>v. (\<forall>k<length R. dot (R ! k) v = 0) \<longrightarrow> (\<forall>k<length M. dot (?M' ! k) v = 0)"
      by simp_all
    from find_pivot_Some[OF Some] have ri: "length P \<le> i" "i < length M" "M ! i ! c \<noteq> 0"
      by simp_all
    from Suc.prems(1) have wf: "wf_matrix n M" by (simp add: rref_inv_def)
    have "\<forall>k<length M. dot (M ! k) v = 0" if "\<forall>k<length R. dot (R ! k) v = 0" for v
    proof -
      from ri(1,2) have r: "length P < length M" by simp
      from IH(3) that have "\<forall>k<length M. dot (?M' ! k) v = 0" by blast
      then show ?thesis by (rule pivot_step_kernel[OF wf r ri(2) ri(3)])
    qed
    with IH show ?thesis by blast
  qed
qed

lemma wf_matrix_cols: "wf_matrix n M \<Longrightarrow> M \<noteq> [] \<Longrightarrow> cols M = n"
  by (cases M) (simp_all add: cols_def wf_matrix_def)

lemma rref_sound:
  assumes wf: "wf_matrix (cols M) M" and rr: "rref M = (R, Q)"
  shows "rref_inv (cols M) R Q (cols M) \<and> length R = length M
         \<and> (\<forall>v. (\<forall>k<length R. dot (R ! k) v = 0) \<longrightarrow> (\<forall>k<length M. dot (M ! k) v = 0))"
proof -
  have "rref_inv (cols M) M [] 0" using wf by (simp add: rref_inv_def)
  from rref_cols_inv[OF this _ rr[unfolded rref_def]] show ?thesis by simp
qed

lemma fold_basis_length:
  "length (fold (\<lambda>(t, p) vec. vec[p := vec ! p - f t]) tps vec) = length vec"
  by (induction tps arbitrary: vec) auto

lemma fold_basis_dot:
  "length row = length vec \<Longrightarrow> \<forall>(t, p)\<in>set tps. p < length vec \<Longrightarrow>
   dot row (fold (\<lambda>(t, p) vec. vec[p := vec ! p - f t]) tps vec)
     = dot row vec - (\<Sum>(t, p)\<leftarrow>tps. row ! p * f t)"
proof (induction tps arbitrary: vec)
  case Nil
  then show ?case by simp
next
  case (Cons tp tps)
  obtain t p where tp: "tp = (t, p)" by (cases tp)
  from Cons.prems tp have p: "p < length vec" by simp
  have "dot row (fold (\<lambda>(t, p) vec. vec[p := vec ! p - f t]) tps (vec[p := vec ! p - f t]))
        = dot row (vec[p := vec ! p - f t]) - (\<Sum>(t, p)\<leftarrow>tps. row ! p * f t)"
    using Cons.prems by (intro Cons.IH) auto
  also have "dot row (vec[p := vec ! p - f t]) = dot row vec - row ! p * f t"
    using p Cons.prems(1) by (simp add: dot_update)
  finally show ?case by (simp add: tp)
qed

lemma fold_basis_nth:
  "\<forall>(t, p)\<in>set tps. p \<noteq> j \<Longrightarrow>
   fold (\<lambda>(t, p) vec. vec[p := vec ! p - f t]) tps vec ! j = vec ! j"
  by (induction tps arbitrary: vec) auto

lemma sum_list_enumerate:
  "(\<Sum>(t, p)\<leftarrow>enumerate 0 ps. g t p) = (\<Sum>t<length ps. g t (ps ! t))"
proof -
  have "(\<Sum>(t, p)\<leftarrow>enumerate 0 ps. g t p) = (\<Sum>i = 0..<length ps. (case enumerate 0 ps ! i of (t, p) \<Rightarrow> g t p))"
    by (simp add: sum_list_sum_nth)
  also have "\<dots> = (\<Sum>i = 0..<length ps. g i (ps ! i))"
    by (intro sum.cong) (simp_all add: nth_enumerate_eq)
  finally show ?thesis by (simp add: atLeast0LessThan)
qed


lemma basis_vector_props:
  assumes inv: "rref_inv n R Q n" and f: "f < n" and fQ: "f \<notin> set Q"
  shows "length (basis_vector R Q n f) = n"
    and "basis_vector R Q n f ! f = 1"
    and "\<forall>k<length R. dot (R ! k) (basis_vector R Q n f) = 0"
proof -
  let ?e = "(replicate n (0::rat))[f := 1]"
  let ?step = "\<lambda>(t, p) vec. vec[p := vec ! p - R ! t ! f]"
  have bv: "basis_vector R Q n f = fold ?step (enumerate 0 Q) ?e"
    by (simp add: basis_vector_def)
  from inv have wf: "wf_matrix n R" and Qn: "\<forall>p\<in>set Q. p < n"
    and unit: "\<forall>k<length Q. \<forall>x<length R. R ! x ! (Q ! k) = (if x = k then 1 else 0)"
    and zero: "\<forall>j<n. \<forall>x<length R. length Q \<le> x \<longrightarrow> R ! x ! j = 0"
    by (simp_all add: rref_inv_def)
  show "length (basis_vector R Q n f) = n"
    unfolding bv by (simp add: fold_basis_length)
  have "\<forall>(t, p)\<in>set (enumerate 0 Q). p \<noteq> f"
    using fQ by (auto simp: in_set_enumerate_eq)
  then have "fold ?step (enumerate 0 Q) ?e ! f = ?e ! f"
    by (rule fold_basis_nth)
  then show "basis_vector R Q n f ! f = 1"
    unfolding bv using f by simp
  show "\<forall>k<length R. dot (R ! k) (basis_vector R Q n f) = 0"
  proof (intro allI impI)
    fix k assume k: "k < length R"
    have len: "length (R ! k) = length ?e" using wf k by (simp add: wf_matrix_nth)
    have bound: "\<forall>(t, p)\<in>set (enumerate 0 Q). p < length ?e"
      using Qn by (auto simp: in_set_enumerate_eq)
    have e: "dot (R ! k) ?e = R ! k ! f"
      using f len by (simp add: dot_update dot_replicate_zero)
    have "(\<Sum>(t, p)\<leftarrow>enumerate 0 Q. R ! k ! p * (R ! t ! f))
          = (\<Sum>t<length Q. R ! k ! (Q ! t) * (R ! t ! f))"
      by (rule sum_list_enumerate)
    also have "\<dots> = (\<Sum>t<length Q. if k = t then R ! t ! f else 0)"
      using unit k by (intro sum.cong) auto
    also have "\<dots> = (if k < length Q then R ! k ! f else 0)"
      by simp
    finally have s: "(\<Sum>(t, p)\<leftarrow>enumerate 0 Q. R ! k ! p * (R ! t ! f))
                     = (if k < length Q then R ! k ! f else 0)" .
    have "dot (R ! k) (basis_vector R Q n f) = R ! k ! f - (if k < length Q then R ! k ! f else 0)"
      unfolding bv fold_basis_dot[OF len bound] e s ..
    also have "\<dots> = 0" using zero f k by simp
    finally show "dot (R ! k) (basis_vector R Q n f) = 0" .
  qed
qed

lemma nullspace_sound:
  assumes wf: "wf_matrix (cols M) M" and v: "v \<in> set (nullspace M)"
  shows "length v = cols M \<and> (\<forall>row\<in>set M. dot row v = 0) \<and> (\<exists>f<cols M. v ! f = 1)"
proof -
  obtain R Q where rr: "rref M = (R, Q)" by (cases "rref M")
  from rref_sound[OF wf rr] have inv: "rref_inv (cols M) R Q (cols M)"
    and ker: "\<forall>v. (\<forall>k<length R. dot (R ! k) v = 0) \<longrightarrow> (\<forall>k<length M. dot (M ! k) v = 0)"
    by simp_all
  from v rr obtain f where f: "f < cols M" "f \<notin> set Q" and vf: "v = basis_vector R Q (cols M) f"
    by (auto simp: nullspace_def)
  note props = basis_vector_props[OF inv f]
  from ker props(3) have "\<forall>k<length M. dot (M ! k) v = 0" unfolding vf by blast
  then have "\<forall>row\<in>set M. dot row v = 0" by (auto simp: in_set_conv_nth)
  with props(1,2) f(1) show ?thesis unfolding vf by blast
qed


section \<open>Properties of the balancer\<close>

lemma and_then_Inr_iff: "and_then x f = Inr y \<longleftrightarrow> (\<exists>a. x = Inr a \<and> f a = Inr y)"
  by (cases x) simp_all

lemma traverse_InrD: "traverse f xs = Inr ys \<Longrightarrow> list_all2 (\<lambda>x y. f x = Inr y) xs ys"
proof (induction xs arbitrary: ys)
  case Nil
  then show ?case by simp
next
  case (Cons x xs)
  from Cons.prems obtain y ys' where "f x = Inr y" "traverse f xs = Inr ys'" "ys = y # ys'"
    by (auto simp: and_then_Inr_iff)
  with Cons.IH[of ys'] show ?case by simp
qed

lemma list_all2_map_eq: "list_all2 (\<lambda>x y. y = g x) xs ys \<Longrightarrow> ys = map g xs"
  by (induction xs ys rule: list_all2_induct) simp_all

lemma traverse_Inr_map:
  assumes "traverse f xs = Inr ys" and "\<And>x y. f x = Inr y \<Longrightarrow> y = g x"
  shows "ys = map g xs"
proof -
  from traverse_InrD[OF assms(1)] have "list_all2 (\<lambda>x y. y = g x) xs ys"
    by (rule list_all2_mono) (rule assms(2))
  then show ?thesis by (rule list_all2_map_eq)
qed

lemma build_row_Inr:
  assumes "build_row rs ps e = Inr row"
  shows "row = map (atom_count e) rs @ map (\<lambda>c. - atom_count e c) ps"
proof -
  from assms obtain left right where
    l: "traverse (\<lambda>compound. and_then (parse_compound compound)
          (\<lambda>d. Inr (dict_get d e 0))) rs = Inr left"
    and r: "traverse (\<lambda>compound. and_then (parse_compound compound)
          (\<lambda>d. Inr (- dict_get d e 0))) ps = Inr right"
    and row: "row = left @ right"
    by (auto simp: build_row_def and_then_Inr_iff)
  have "left = map (atom_count e) rs"
    by (rule traverse_Inr_map[OF l]) (auto simp: and_then_Inr_iff atom_count_def)
  moreover have "right = map (\<lambda>c. - atom_count e c) ps"
    by (rule traverse_Inr_map[OF r]) (auto simp: and_then_Inr_iff atom_count_def)
  ultimately show ?thesis by (simp add: row)
qed

lemma build_matrix_Inr:
  assumes "build_matrix rs ps els = Inr m"
  shows "m = map (\<lambda>e. map (atom_count e) rs @ map (\<lambda>c. - atom_count e c) ps) els"
  using assms unfolding build_matrix_def
  by (rule traverse_Inr_map) (rule build_row_Inr)

lemma build_matrix_wf:
  assumes "build_matrix rs ps els = Inr m"
  shows "wf_matrix (length rs + length ps) (Matrix m)"
  using build_matrix_Inr[OF assms] by (auto simp: wf_matrix_def Matrix_def)

lemma nullspace_Nil: "nullspace [] = []"
  by (simp add: nullspace_def cols_def split: prod.split)

lemma build_matrix_nullspace:
  assumes m: "build_matrix rs ps els = Inr m" and v: "v \<in> set (nullspace (Matrix m))"
  shows "length v = length rs + length ps \<and> (\<forall>row\<in>set (Matrix m). dot row v = 0)
         \<and> (\<exists>f<length v. v ! f = 1)"
proof -
  from v have ne: "Matrix m \<noteq> []" using nullspace_Nil by auto
  note wf = build_matrix_wf[OF m]
  from wf_matrix_cols[OF wf ne] have c: "cols (Matrix m) = length rs + length ps" .
  from nullspace_sound[OF wf[folded c] v] c show ?thesis by simp
qed

lemma dot_proportional:
  "length ks = length v \<Longrightarrow> \<forall>i<length v. ks ! i * g = v ! i * l \<Longrightarrow>
   dot row ks * g = dot row v * l"
proof (induction row arbitrary: ks v)
  case Nil
  then show ?case by simp
next
  case (Cons a row)
  show ?case
  proof (cases v)
    case Nil
    with Cons.prems show ?thesis by simp
  next
    case (Cons x v')
    with Cons.prems(1) obtain k ks' where ks: "ks = k # ks'" by (cases ks) auto
    from Cons.prems Cons ks have h0: "k * g = x * l"
      and hs: "\<forall>i<length v'. ks' ! i * g = v' ! i * l" and len: "length ks' = length v'"
      by auto
    from Cons.IH[OF len hs] h0 show ?thesis
      by (simp add: Cons ks algebra_simps)
  qed
qed

lemma dot_of_int:
  "dot (map of_int xs) (map of_int ys) = of_int (\<Sum>(x, y)\<leftarrow>zip xs ys. x * y)"
proof (induction xs arbitrary: ys)
  case Nil
  then show ?case by simp
next
  case (Cons x xs)
  then show ?case by (cases ys) simp_all
qed

lemma sum_zip_append:
  "length a = length c \<Longrightarrow>
   (\<Sum>(x, y)\<leftarrow>zip (a @ b) (c @ d). f x y) = (\<Sum>(x, y)\<leftarrow>zip a c. f x y) + (\<Sum>(x, y)\<leftarrow>zip b d. f x y)"
  by (induction a c rule: list_induct2) (simp_all add: add.assoc)


lemma balance_reaction_core_eq:
  assumes "parse_reaction reaction = Some (rs, ps)" and "get_elements rs ps = Inr els"
    and "build_matrix rs ps els = Inr m"
  shows "balance_reaction_core reaction =
           (case nullspace (Matrix m) of
              [] \<Rightarrow> Inr Cannot_Balance
            | v # _ \<Rightarrow> and_then (simplify_coefficients v)
                (\<lambda>ks. Inr (Balanced rs (take (length rs) ks) ps (drop (length rs) ks))))"
  using assms by (simp add: balance_reaction_core_def)

lemma balance_reaction_core_BalancedE:
  assumes "balance_reaction_core reaction = Inr (Balanced rs rc ps pc)"
  obtains els m v vs ks where "parse_reaction reaction = Some (rs, ps)"
    and "get_elements rs ps = Inr els" and "build_matrix rs ps els = Inr m"
    and "nullspace (Matrix m) = v # vs" and "simplify_coefficients v = Inr ks"
    and "rc = take (length rs) ks" and "pc = drop (length rs) ks"
proof -
  from assms obtain rs' ps' where pr: "parse_reaction reaction = Some (rs', ps')"
    by (auto simp: balance_reaction_core_def split: option.splits)
  from assms pr obtain els m where els: "get_elements rs' ps' = Inr els"
    and m: "build_matrix rs' ps' els = Inr m"
    by (auto simp: balance_reaction_core_def and_then_Inr_iff)
  note eq = balance_reaction_core_eq[OF pr els m]
  from assms eq obtain v vs where ns: "nullspace (Matrix m) = v # vs"
    by (cases "nullspace (Matrix m)") auto
  from assms eq ns obtain ks where ks: "simplify_coefficients v = Inr ks"
    and res: "Balanced rs' (take (length rs') ks) ps' (drop (length rs') ks) = Balanced rs rc ps pc"
    by (auto simp: and_then_Inr_iff)
  from res have "rs' = rs" "ps' = ps" "rc = take (length rs) ks" "pc = drop (length rs) ks"
    by auto
  with pr els m ns ks that show thesis by blast
qed

lemma sum_zip_map_left:
  "length cs = length ks \<Longrightarrow>
   (\<Sum>(x, y)\<leftarrow>zip (map f cs) ks. x * y) = (\<Sum>(k, c)\<leftarrow>zip ks cs. k * (f c :: int))"
  by (induction cs ks rule: list_induct2) simp_all

lemma sum_zip_map_left_neg:
  "length cs = length ks \<Longrightarrow>
   (\<Sum>(x, y)\<leftarrow>zip (map (\<lambda>c. - f c) cs) ks. x * y) = - (\<Sum>(k, c)\<leftarrow>zip ks cs. k * (f c :: int))"
  by (induction cs ks rule: list_induct2) simp_all

text \<open>
  With the atom counts that the program reads from its own parse of each compound, the
  coefficients it returns conserve every element of the element universe.
\<close>

lemma balance_conserves_parsed_counts:
  assumes bal: "balance_reaction_core reaction = Inr (Balanced reactants rc products pc)"
    and els: "get_elements reactants products = Inr elements"
    and e: "e \<in> set elements"
  shows "length rc = length reactants \<and> length pc = length products
         \<and> (\<Sum>(k, compound)\<leftarrow>zip rc reactants. k * atom_count e compound)
           = (\<Sum>(k, compound)\<leftarrow>zip pc products. k * atom_count e compound)"
proof -
  from bal obtain els' m v vs ks where
    els': "get_elements reactants products = Inr els'"
    and m: "build_matrix reactants products els' = Inr m"
    and ns: "nullspace (Matrix m) = v # vs"
    and ks: "simplify_coefficients v = Inr ks"
    and rc: "rc = take (length reactants) ks" and pc: "pc = drop (length reactants) ks"
    by (rule balance_reaction_core_BalancedE)
  from els els' have [simp]: "els' = elements" by simp
  from ns have "v \<in> set (nullspace (Matrix m))" by simp
  from build_matrix_nullspace[OF m this]
  have lv: "length v = length reactants + length products"
    and ker: "\<forall>row\<in>set (Matrix m). dot row v = 0" and one: "\<exists>f<length v. v ! f = 1"
    by blast+
  from one have nz: "\<exists>c\<in>set v. c \<noteq> 0" by (metis nth_mem zero_neq_one)
  from simplify_coefficients_scale[OF nz] ks obtain L g where
    lk: "length ks = length v" and g: "g \<noteq> 0"
    and sc: "\<forall>i<length v. of_int (ks ! i) * of_int g = v ! i * (of_int L :: rat)"
    by auto
  have lens: "length rc = length reactants" "length pc = length products"
    using lk lv by (simp_all add: rc pc)
  let ?A = "map (atom_count e) reactants"
  let ?B = "map (\<lambda>c. - atom_count e c) products"
  have "?A @ ?B \<in> set m"
    using build_matrix_Inr[OF m] e by auto
  then have "map of_int (?A @ ?B) \<in> set (Matrix m)"
    unfolding Matrix_def set_map by (rule imageI)
  with ker have "dot (map of_int (?A @ ?B)) v = 0" by blast
  moreover have "dot (map of_int (?A @ ?B)) (map of_int ks) * of_int g
                 = dot (map of_int (?A @ ?B)) v * of_int L"
    using lk sc by (intro dot_proportional) simp_all
  ultimately have "dot (map of_int (?A @ ?B)) (map of_int ks) = 0" using g by simp
  then have "(\<Sum>(x, y)\<leftarrow>zip (?A @ ?B) ks. x * y) = 0"
    by (simp only: dot_of_int of_int_eq_0_iff)
  moreover have "ks = rc @ pc" by (simp add: rc pc)
  ultimately have "(\<Sum>(x, y)\<leftarrow>zip ?A rc. x * y) + (\<Sum>(x, y)\<leftarrow>zip ?B pc. x * y) = 0"
    using lens by (simp add: sum_zip_append)
  moreover have "(\<Sum>(x, y)\<leftarrow>zip ?A rc. x * y) = (\<Sum>(k, c)\<leftarrow>zip rc reactants. k * atom_count e c)"
    using lens by (intro sum_zip_map_left) simp
  moreover have "(\<Sum>(x, y)\<leftarrow>zip ?B pc. x * y) = - (\<Sum>(k, c)\<leftarrow>zip pc products. k * atom_count e c)"
    using lens by (intro sum_zip_map_left_neg) simp
  ultimately have "(\<Sum>(k, c)\<leftarrow>zip rc reactants. k * atom_count e c)
                   = (\<Sum>(k, c)\<leftarrow>zip pc products. k * atom_count e c)"
    by linarith
  with lens show ?thesis by simp
qed


text \<open>
  When no symbol is matched twice in a compound, the count the program reads is the number
  of atoms of the element in the compound.
\<close>

lemma filter_symbol_absent:
  "k \<notin> fst ` set toks \<Longrightarrow> filter (\<lambda>(e, c). e = k) toks = []"
  by (induction toks) auto

lemma fold_update_get_distinct:
  "distinct (map fst toks) \<Longrightarrow>
   dict_get (fold (\<lambda>(e, c). AList.update e (f c)) toks d0) k 0 =
     (if k \<in> fst ` set toks
      then sum_list (map (f \<circ> snd) (filter (\<lambda>(e, c). e = k) toks))
      else dict_get d0 k 0)"
proof (induction toks arbitrary: d0)
  case Nil
  then show ?case by simp
next
  case (Cons t toks)
  obtain e c where t: "t = (e, c)" by (cases t)
  from Cons.prems t have e: "e \<notin> fst ` set toks" and d: "distinct (map fst toks)" by auto
  have upd: "dict_get (AList.update e (f c) d0) k 0 = (if k = e then f c else dict_get d0 k 0)"
    by (simp add: dict_get_def update_conv')
  note IH = Cons.IH[OF d, of "AList.update e (f c) d0"]
  show ?case
  proof (cases "k = e")
    case True
    with e have k: "k \<notin> fst ` set toks" by simp
    then have "filter (\<lambda>(e, c). e = k) toks = []" by (rule filter_symbol_absent)
    with IH k upd True show ?thesis by (simp add: t)
  next
    case False
    then have "e \<noteq> k" by simp
    with IH upd False show ?thesis by (simp add: t)
  qed
qed

lemma atom_count_element_count:
  assumes "parse_compound c = Inr d" and "distinct (map fst (findall c))"
  shows "atom_count e c = element_count e c"
proof -
  have d: "d = fold (\<lambda>(e, c). AList.update e (count_value c)) (findall c) []"
    using assms(1) by (rule parse_compound_Inr)
  have "dict_get d e 0 = sum_list (map (count_value \<circ> snd) (filter (\<lambda>(s, c). s = e) (findall c)))"
    unfolding d fold_update_get_distinct[OF assms(2)]
    by (simp add: dict_get_def filter_symbol_absent)
  then show ?thesis by (simp add: atom_count_def element_count_def assms(1))
qed

lemma get_elements_parses:
  assumes "get_elements rs ps = Inr els" and "c \<in> set (rs @ ps)"
  shows "\<exists>d. parse_compound c = Inr d"
proof -
  from assms(1) obtain ds where "traverse parse_compound (rs @ ps) = Inr ds"
    by (auto simp: get_elements_def and_then_Inr_iff)
  then have all: "list_all2 (\<lambda>x y. parse_compound x = Inr y) (rs @ ps) ds"
    by (rule traverse_InrD)
  from assms(2) obtain i where i: "i < length (rs @ ps)" "(rs @ ps) ! i = c"
    by (meson in_set_conv_nth)
  from list_all2_nthD[OF all i(1)] i(2) show ?thesis by auto
qed

lemma sum_zip_cong:
  "(\<And>c. c \<in> set cs \<Longrightarrow> f c = g c) \<Longrightarrow>
   (\<Sum>(k, c)\<leftarrow>zip ks cs. k * (f c :: int)) = (\<Sum>(k, c)\<leftarrow>zip ks cs. k * g c)"
  by (rule arg_cong[where f = sum_list], rule map_cong) (auto dest: set_zip_rightD)

lemma balance_conserves_elements_without_repeats:
  assumes bal: "balance_reaction_core reaction = Inr (Balanced reactants rc products pc)"
    and els: "get_elements reactants products = Inr elements"
    and e: "e \<in> set elements"
    and once: "\<forall>c\<in>set (reactants @ products). distinct (map fst (findall c))"
  shows "(\<Sum>(k, compound)\<leftarrow>zip rc reactants. k * element_count e compound)
           = (\<Sum>(k, compound)\<leftarrow>zip pc products. k * element_count e compound)"
proof -
  have eq: "atom_count e c = element_count e c" if "c \<in> set (reactants @ products)" for c
    using get_elements_parses[OF els that] once that
    by (auto intro: atom_count_element_count)
  have "(\<Sum>(k, c)\<leftarrow>zip rc reactants. k * element_count e c)
          = (\<Sum>(k, c)\<leftarrow>zip rc reactants. k * atom_count e c)"
    by (rule sum_zip_cong) (simp add: eq)
  moreover have "(\<Sum>(k, c)\<leftarrow>zip pc products. k * element_count e c)
          = (\<Sum>(k, c)\<leftarrow>zip pc products. k * atom_count e c)"
    by (rule sum_zip_cong) (simp add: eq)
  ultimately show ?thesis
    using balance_conserves_parsed_counts[OF bal els e] by simp
qed

text \<open>
  Claim C1.  The coefficients of a balanced reaction should conserve every element: the sum
  over the reactants of coefficient times the number of atoms equals the sum over the
  products.  The program counts the atoms with the parse of claim C2, where a later match of
  a symbol replaces the earlier one, so it balances the wrong counts when a symbol is
  repeated: for \<^verbatim>\<open>HOH -> H2 + O2\<close> it reads one hydrogen atom in \<^verbatim>\<open>HOH\<close> and answers
  \<^verbatim>\<open>2 HOH -> 1 H2 + 1 O2\<close>, which has 4 hydrogen atoms on the left and 2 on the right.
\<close>

theorem balance_breaks_conservation:
  "balance_reaction ''HOH -> H2 + O2'' = Inr ''2 HOH -> 1 H2 + 1 O2''
   \<and> balance_reaction_core ''HOH -> H2 + O2''
       = Inr (Balanced [''HOH''] [2] [''H2'', ''O2''] [1, 1])
   \<and> get_elements [''HOH''] [''H2'', ''O2''] = Inr [''H'', ''O'']
   \<and> (\<Sum>(k, compound)\<leftarrow>zip [2] [''HOH'']. k * element_count ''H'' compound) = 4
   \<and> (\<Sum>(k, compound)\<leftarrow>zip [1, 1] [''H2'', ''O2'']. k * element_count ''H'' compound) = 2"
  by code_simp

text \<open>
  Claim C7.  For \<^verbatim>\<open>"H2 + O2 -> H2O"\<close> the reactant coefficients are 2 and 1 and the product
  coefficient is 2, the compound strings are kept as written and in order, and the answer is
  \<^verbatim>\<open>2 H2 + 1 O2 -> 2 H2O\<close>.
\<close>

theorem balance_reaction_example:
  "balance_reaction_core ''H2 + O2 -> H2O'' = Inr (Balanced [''H2'', ''O2''] [2, 1] [''H2O''] [2])
   \<and> balance_reaction ''H2 + O2 -> H2O'' = Inr ''2 H2 + 1 O2 -> 2 H2O''"
  by code_simp

text \<open>
  For a reaction that parses, the program answers that the reaction cannot be balanced when
  the null-space basis of the matrix it has built is empty and goes on with the first basis
  vector otherwise; and when only the zero vector is annihilated by all the rows of that
  matrix, the basis is empty.
\<close>

lemma balance_reaction_core_trivial_kernel:
  assumes pr: "parse_reaction reaction = Some (reactants, products)"
    and els: "get_elements reactants products = Inr elements"
    and m: "build_matrix reactants products elements = Inr m"
  shows "balance_reaction_core reaction =
           (case nullspace (Matrix m) of
              [] \<Rightarrow> Inr Cannot_Balance
            | v # _ \<Rightarrow> and_then (simplify_coefficients v)
                (\<lambda>ks. Inr (Balanced reactants (take (length reactants) ks)
                              products (drop (length reactants) ks))))
         \<and> ((\<forall>v. length v = length reactants + length products
                  \<and> (\<forall>row\<in>set (Matrix m). dot row v = 0) \<longrightarrow> (\<forall>x\<in>set v. x = 0))
              \<longrightarrow> nullspace (Matrix m) = []
                  \<and> balance_reaction_core reaction = Inr Cannot_Balance
                  \<and> balance_reaction reaction = Inr ''This reaction cannot be balanced.'')"
proof (intro conjI impI)
  note eq = balance_reaction_core_eq[OF pr els m]
  show "balance_reaction_core reaction =
           (case nullspace (Matrix m) of
              [] \<Rightarrow> Inr Cannot_Balance
            | v # _ \<Rightarrow> and_then (simplify_coefficients v)
                (\<lambda>ks. Inr (Balanced reactants (take (length reactants) ks)
                              products (drop (length reactants) ks))))"
    by (rule eq)
  assume triv: "\<forall>v. length v = length reactants + length products
                  \<and> (\<forall>row\<in>set (Matrix m). dot row v = 0) \<longrightarrow> (\<forall>x\<in>set v. x = 0)"
  show ns: "nullspace (Matrix m) = []"
  proof (cases "nullspace (Matrix m)")
    case Nil
    then show ?thesis .
  next
    case (Cons v vs)
    then have "v \<in> set (nullspace (Matrix m))" by simp
    from build_matrix_nullspace[OF m this] obtain f where
      "length v = length reactants + length products"
      "\<forall>row\<in>set (Matrix m). dot row v = 0" "f < length v" "v ! f = 1"
      by blast
    with triv have "v ! f = 0" by (metis nth_mem)
    with \<open>v ! f = 1\<close> show ?thesis by simp
  qed
  from eq ns show core: "balance_reaction_core reaction = Inr Cannot_Balance" by simp
  then show "balance_reaction reaction = Inr ''This reaction cannot be balanced.''"
    by (simp add: balance_reaction_def)
qed

text \<open>
  Claim C8.  A reaction whose conservation matrix has full column rank should be answered as
  not balanceable.  The program builds its matrix from the parse of claim C2, so a repeated
  symbol gives it another matrix: for \<^verbatim>\<open>CH3OH -> CHO\<close> the conservation matrix has the rows
  \<open>(1, -1)\<close>, \<open>(4, -1)\<close> and \<open>(1, -1)\<close> for C, H and O, which only the zero vector satisfies
  and whose null-space basis is empty, while the program builds three rows \<open>(1, -1)\<close> and
  answers \<^verbatim>\<open>1 CH3OH -> 1 CHO\<close>.
\<close>

theorem balance_answers_full_rank_reaction:
  "balance_reaction ''CH3OH -> CHO'' = Inr ''1 CH3OH -> 1 CHO''
   \<and> get_elements [''CH3OH''] [''CHO''] = Inr [''C'', ''H'', ''O'']
   \<and> build_matrix [''CH3OH''] [''CHO''] [''C'', ''H'', ''O'']
       = Inr [[1, - 1], [1, - 1], [1, - 1]]
   \<and> map (\<lambda>e. map (element_count e) [''CH3OH''] @ map (\<lambda>c. - element_count e c) [''CHO''])
         [''C'', ''H'', ''O'']
       = [[1, - 1], [4, - 1], [1, - 1]]
   \<and> nullspace (Matrix [[1, - 1], [4, - 1], [1, - 1]]) = []"
  by code_simp

lemma methanol_matrix_full_column_rank:
  assumes "length v = 2" and "\<forall>row\<in>set (Matrix [[1, - 1], [4, - 1], [1, - 1]]). dot row v = 0"
  shows "\<forall>x\<in>set v. x = 0"
proof -
  from assms(1) obtain x y where v: "v = [x, y]"
    by (cases v; cases "tl v") auto
  from assms(2) show ?thesis by (simp add: v Matrix_def)
qed

end
